theory Spec2Isabelle
  imports Complex_Main "HOL-Library.Multiset"
begin

section \<open>The Deutsch-Jozsa black box simulator and its classical classifier\<close>

text \<open>
  A shallow embedding of \<^verbatim>\<open>Blackbox-Simulator-Classifier.py\<close>. Python integers that
  can be negative (array contents, oracle type tags, query indices) are \<open>int\<close>;
  the bit-string length, loop counters and query counts are \<open>nat\<close>. Every exception the
  source can raise is a value of \<open>error\<close>, returned as \<open>Inl\<close>.

  The random generators belong to the Python and numpy libraries. The outcome of each
  draw is an argument of the function that draws: the list function applied by
  \<^verbatim>\<open>random.shuffle\<close>, the bit drawn by \<^verbatim>\<open>np.random.choice([0, 1])\<close>, the raw
  number behind \<^verbatim>\<open>random.choice\<close>.
\<close>

subsection \<open>Data model\<close>

datatype error = IndexError | AttributeError | UnboundLocalError

text \<open>
  The class \<^verbatim>\<open>general_black_box\<close>. The constructor sets \<^verbatim>\<open>output\<close> only for type 0
  and \<^verbatim>\<open>output_array\<close> only otherwise, so each of the two is optional: reading an
  attribute that was never set raises AttributeError. The attribute \<^verbatim>\<open>output\<close> is
  named \<open>output_bit\<close> here.
\<close>

record general_black_box =
  type :: int
  input_bitstring_length :: nat
  output_bit :: "int option"
  output_array :: "int list option"

text \<open>
  Indexing a Python list or a one-dimensional numpy array with an integer: a negative
  index counts from the end, anything outside \<open>[-len, len)\<close> raises IndexError.
\<close>

definition py_index :: "'a list \<Rightarrow> int \<Rightarrow> error + 'a" where
  "py_index xs i =
     (let len = int (length xs) in
      if 0 \<le> i \<and> i < len then Inr (xs ! nat i)
      else if - len \<le> i \<and> i < 0 then Inr (xs ! nat (len + i))
      else Inl IndexError)"

text \<open>
  \<^verbatim>\<open>random.choice(seq)\<close> is \<^verbatim>\<open>seq[randbelow(len(seq))]\<close>; \<open>r\<close> is the raw draw, reduced
  to the range of the sequence.
\<close>

definition random_choice :: "nat \<Rightarrow> 'a list \<Rightarrow> error + 'a" where
  "random_choice r seq =
     (if seq = [] then Inl IndexError else Inr (seq ! (r mod length seq)))"

subsection \<open>The oracle\<close>

text \<open>
  \<^verbatim>\<open>general_black_box.__init__\<close>. \<open>choice\<close> is the outcome of
  \<^verbatim>\<open>np.random.choice([0, 1])\<close> and \<open>shuffle\<close> what \<^verbatim>\<open>random.shuffle\<close> does to the
  array. \<^verbatim>\<open>int(number / 2)\<close> on a power of two is the integer quotient, here and
  in the classifier.
\<close>

definition general_black_box_init ::
  "int \<Rightarrow> (int list \<Rightarrow> int list) \<Rightarrow> int \<Rightarrow> nat \<Rightarrow> general_black_box" where
  "general_black_box_init choice shuffle black_box_type black_box_bit_string_length =
     (if black_box_type = 0
      then \<lparr>type = black_box_type,
            input_bitstring_length = black_box_bit_string_length,
            output_bit = Some choice,
            output_array = None\<rparr>
      else
        let number_of_possible_bitsrtings = (2::nat) ^ black_box_bit_string_length;
            temp_zero_array = replicate (number_of_possible_bitsrtings div 2) (0::int);
            temp_ones_array = replicate (number_of_possible_bitsrtings div 2) (1::int);
            black_box_output_array = shuffle (temp_zero_array @ temp_ones_array)
        in \<lparr>type = black_box_type,
            input_bitstring_length = black_box_bit_string_length,
            output_bit = None,
            output_array = Some black_box_output_array\<rparr>)"

text \<open>\<^verbatim>\<open>general_black_box.input_output_operation\<close>: no validation of the index.\<close>

definition input_output_operation :: "general_black_box \<Rightarrow> int \<Rightarrow> error + int" where
  "input_output_operation self bit_string_input =
     (if type self = 0
      then (case output_bit self of
              None \<Rightarrow> Inl AttributeError
            | Some bit_string_output \<Rightarrow> Inr bit_string_output)
      else (case output_array self of
              None \<Rightarrow> Inl AttributeError
            | Some arr \<Rightarrow> py_index arr bit_string_input))"

subsection \<open>The classifier\<close>

text \<open>
  The \<^verbatim>\<open>for counter in range(...)\<close> loop of \<^verbatim>\<open>black_box_classifier\<close>, by recursion
  on the values the range still has to yield. The loop state is
  \<open>(black_box_type, counter, black_box_output_1)\<close>; \<open>counter\<close> is \<open>None\<close> until the
  loop has assigned it. A \<^verbatim>\<open>break\<close> returns the state at once.
\<close>

fun classifier_loop ::
  "general_black_box \<Rightarrow> int list \<Rightarrow> nat list \<Rightarrow> int \<times> nat option \<times> int
     \<Rightarrow> error + (int \<times> nat option \<times> int)" where
  "classifier_loop black_box black_box_input_list [] s = Inr s"
| "classifier_loop black_box black_box_input_list (counter # rest)
       (black_box_type, _, black_box_output_1) =
     (case py_index black_box_input_list (int counter + 1) of
        Inl e \<Rightarrow> Inl e
      | Inr bit_string \<Rightarrow>
          (case input_output_operation black_box bit_string of
             Inl e \<Rightarrow> Inl e
           | Inr black_box_output_2 \<Rightarrow>
               if black_box_output_1 \<noteq> black_box_output_2
               then Inr (black_box_type + 1, Some counter, black_box_output_1)
               else classifier_loop black_box black_box_input_list rest
                      (black_box_type, Some counter, black_box_output_2)))"

text \<open>
  \<^verbatim>\<open>black_box_classifier\<close>. The result is \<open>(black_box_type, number_of_black_box_outputs)\<close>.
  Reading \<^verbatim>\<open>counter\<close> after a loop that never ran raises UnboundLocalError.
\<close>

definition black_box_classifier ::
  "(int list \<Rightarrow> int list) \<Rightarrow> general_black_box \<Rightarrow> error + (int \<times> nat)" where
  "black_box_classifier shuffle black_box =
     (let number_of_possible_bitsrtings = (2::nat) ^ input_bitstring_length black_box;
          black_box_type = 0;
          black_box_input_list = shuffle (map int [0..<number_of_possible_bitsrtings])
      in case py_index black_box_input_list 0 of
           Inl e \<Rightarrow> Inl e
         | Inr bit_string \<Rightarrow>
             (case input_output_operation black_box bit_string of
                Inl e \<Rightarrow> Inl e
              | Inr black_box_output_1 \<Rightarrow>
                  (case classifier_loop black_box black_box_input_list
                          [0..<number_of_possible_bitsrtings div 2]
                          (black_box_type, None, black_box_output_1) of
                     Inl e \<Rightarrow> Inl e
                   | Inr (black_box_type', counter, _) \<Rightarrow>
                       (case counter of
                          None \<Rightarrow> Inl UnboundLocalError
                        | Some c \<Rightarrow> Inr (black_box_type', c + 2)))))"

text \<open>
  The same classifier with a log of the indices it passes to
  \<^verbatim>\<open>input_output_operation\<close>, in the order of the calls. The log is returned whether
  or not the run ends in an exception; a call that raises is logged too.
\<close>

fun classifier_loop_log ::
  "general_black_box \<Rightarrow> int list \<Rightarrow> nat list \<Rightarrow> int \<times> nat option \<times> int \<Rightarrow> int list
     \<Rightarrow> int list \<times> (error + (int \<times> nat option \<times> int))" where
  "classifier_loop_log black_box black_box_input_list [] s queried = (queried, Inr s)"
| "classifier_loop_log black_box black_box_input_list (counter # rest)
       (black_box_type, _, black_box_output_1) queried =
     (case py_index black_box_input_list (int counter + 1) of
        Inl e \<Rightarrow> (queried, Inl e)
      | Inr bit_string \<Rightarrow>
          (case input_output_operation black_box bit_string of
             Inl e \<Rightarrow> (queried @ [bit_string], Inl e)
           | Inr black_box_output_2 \<Rightarrow>
               if black_box_output_1 \<noteq> black_box_output_2
               then (queried @ [bit_string],
                     Inr (black_box_type + 1, Some counter, black_box_output_1))
               else classifier_loop_log black_box black_box_input_list rest
                      (black_box_type, Some counter, black_box_output_2)
                      (queried @ [bit_string])))"

definition black_box_classifier_log ::
  "(int list \<Rightarrow> int list) \<Rightarrow> general_black_box \<Rightarrow> int list \<times> (error + (int \<times> nat))" where
  "black_box_classifier_log shuffle black_box =
     (let number_of_possible_bitsrtings = (2::nat) ^ input_bitstring_length black_box;
          black_box_type = 0;
          black_box_input_list = shuffle (map int [0..<number_of_possible_bitsrtings])
      in case py_index black_box_input_list 0 of
           Inl e \<Rightarrow> ([], Inl e)
         | Inr bit_string \<Rightarrow>
             (case input_output_operation black_box bit_string of
                Inl e \<Rightarrow> ([bit_string], Inl e)
              | Inr black_box_output_1 \<Rightarrow>
                  (case classifier_loop_log black_box black_box_input_list
                          [0..<number_of_possible_bitsrtings div 2]
                          (black_box_type, None, black_box_output_1) [bit_string] of
                     (queried, Inl e) \<Rightarrow> (queried, Inl e)
                   | (queried, Inr (black_box_type', counter, _)) \<Rightarrow>
                       (case counter of
                          None \<Rightarrow> (queried, Inl UnboundLocalError)
                        | Some c \<Rightarrow> (queried, Inr (black_box_type', c + 2))))))"

text \<open>
  The classifier as the specification words it: every queried output is compared with
  the output of the first query, which is never overwritten. It differs from
  \<open>classifier_loop\<close> in the state of the recursive call only.
\<close>

fun first_reference_loop ::
  "general_black_box \<Rightarrow> int list \<Rightarrow> nat list \<Rightarrow> int \<times> nat option \<times> int
     \<Rightarrow> error + (int \<times> nat option \<times> int)" where
  "first_reference_loop black_box black_box_input_list [] s = Inr s"
| "first_reference_loop black_box black_box_input_list (counter # rest)
       (black_box_type, _, reference_output) =
     (case py_index black_box_input_list (int counter + 1) of
        Inl e \<Rightarrow> Inl e
      | Inr bit_string \<Rightarrow>
          (case input_output_operation black_box bit_string of
             Inl e \<Rightarrow> Inl e
           | Inr black_box_output_2 \<Rightarrow>
               if reference_output \<noteq> black_box_output_2
               then Inr (black_box_type + 1, Some counter, reference_output)
               else first_reference_loop black_box black_box_input_list rest
                      (black_box_type, Some counter, reference_output)))"

definition black_box_classifier_first_reference ::
  "(int list \<Rightarrow> int list) \<Rightarrow> general_black_box \<Rightarrow> error + (int \<times> nat)" where
  "black_box_classifier_first_reference shuffle black_box =
     (let number_of_possible_bitsrtings = (2::nat) ^ input_bitstring_length black_box;
          black_box_type = 0;
          black_box_input_list = shuffle (map int [0..<number_of_possible_bitsrtings])
      in case py_index black_box_input_list 0 of
           Inl e \<Rightarrow> Inl e
         | Inr bit_string \<Rightarrow>
             (case input_output_operation black_box bit_string of
                Inl e \<Rightarrow> Inl e
              | Inr reference_output \<Rightarrow>
                  (case first_reference_loop black_box black_box_input_list
                          [0..<number_of_possible_bitsrtings div 2]
                          (black_box_type, None, reference_output) of
                     Inl e \<Rightarrow> Inl e
                   | Inr (black_box_type', counter, _) \<Rightarrow>
                       (case counter of
                          None \<Rightarrow> Inl UnboundLocalError
                        | Some c \<Rightarrow> Inr (black_box_type', c + 2)))))"

subsection \<open>The oracle invariants of the specification\<close>

text \<open>
  A Constant oracle has type 0 and its fixed output set; a Balanced oracle has type 1
  and an output array of length \<open>2 ^ n\<close> with \<open>2 ^ (n - 1)\<close> zeros and as many ones.
  \<open>well_formed\<close> asks less: the attribute that \<^verbatim>\<open>input_output_operation\<close> reads is
  set, and an output array has one entry for each bit string.
\<close>

definition constant_invariant :: "general_black_box \<Rightarrow> bool" where
  "constant_invariant black_box \<longleftrightarrow>
     type black_box = 0 \<and> output_bit black_box \<noteq> None"

definition balanced_invariant :: "general_black_box \<Rightarrow> bool" where
  "balanced_invariant black_box \<longleftrightarrow>
     type black_box = 1 \<and>
     (case output_array black_box of
        None \<Rightarrow> False
      | Some arr \<Rightarrow>
          length arr = 2 ^ input_bitstring_length black_box \<and>
          count_list arr 0 = 2 ^ (input_bitstring_length black_box - 1) \<and>
          count_list arr 1 = 2 ^ (input_bitstring_length black_box - 1))"

definition well_formed :: "general_black_box \<Rightarrow> bool" where
  "well_formed black_box \<longleftrightarrow>
     (if type black_box = 0 then output_bit black_box \<noteq> None
      else (case output_array black_box of
              None \<Rightarrow> False
            | Some arr \<Rightarrow> length arr = 2 ^ input_bitstring_length black_box))"

text \<open>
  The position of the first output that differs from the first one; the length of the
  list when there is none.
\<close>

definition first_mismatch_position :: "'a list \<Rightarrow> nat" where
  "first_mismatch_position outs = length (takeWhile (\<lambda>y. y = hd outs) outs)"

text \<open>
  The outputs of the oracle along the shuffled index list, position by position.
\<close>

definition queried_outputs ::
  "(int list \<Rightarrow> int list) \<Rightarrow> general_black_box \<Rightarrow> (error + int) list" where
  "queried_outputs shuffle black_box =
     map (input_output_operation black_box)
       (shuffle (map int [0..<2 ^ input_bitstring_length black_box]))"

subsection \<open>The trial harness\<close>

text \<open>
  The random draws of one run of \<^verbatim>\<open>test_black_box_classifier\<close>: the two draws of the
  constructors, and for trial \<open>i\<close> the raw draw of \<^verbatim>\<open>random.choice\<close> and the shuffle
  inside \<^verbatim>\<open>black_box_classifier\<close>.
\<close>

record harness_randomness =
  constant_choice :: int
  array_shuffle :: "int list \<Rightarrow> int list"
  trial_choice :: "nat \<Rightarrow> nat"
  trial_shuffle :: "nat \<Rightarrow> int list \<Rightarrow> int list"

text \<open>
  The trial loop. Its state is the two result lists and the lines printed so far.
\<close>

fun test_loop ::
  "harness_randomness \<Rightarrow> general_black_box \<Rightarrow> general_black_box \<Rightarrow> nat list
     \<Rightarrow> nat list \<times> int list \<times> string list
     \<Rightarrow> error + (nat list \<times> int list \<times> string list)" where
  "test_loop rnd black_box_1 black_box_2 [] s = Inr s"
| "test_loop rnd black_box_1 black_box_2 (i # rest)
       (number_of_outputs_list, black_box_type_list, printed) =
     (case random_choice (trial_choice rnd i) [black_box_1, black_box_2] of
        Inl e \<Rightarrow> Inl e
      | Inr black_box_in_use \<Rightarrow>
          (case black_box_classifier (trial_shuffle rnd i) black_box_in_use of
             Inl e \<Rightarrow> Inl e
           | Inr (black_box_type, number_of_black_box_outputs) \<Rightarrow>
               test_loop rnd black_box_1 black_box_2 rest
                 (number_of_outputs_list @ [number_of_black_box_outputs],
                  black_box_type_list @ [black_box_type],
                  if type black_box_in_use \<noteq> black_box_type
                  then printed @ [''Black box misclassified!'']
                  else printed)))"

definition test_black_box_classifier ::
  "harness_randomness \<Rightarrow> nat \<Rightarrow> nat \<Rightarrow> error + (nat list \<times> int list \<times> string list)" where
  "test_black_box_classifier rnd length_of_bitstring number_of_tests =
     (let black_box_1 = general_black_box_init (constant_choice rnd) (array_shuffle rnd)
                          1 length_of_bitstring;
          black_box_2 = general_black_box_init (constant_choice rnd) (array_shuffle rnd)
                          0 length_of_bitstring
      in test_loop rnd black_box_1 black_box_2 [0..<number_of_tests] ([], [], []))"

subsection \<open>The scaling driver\<close>

text \<open>
  What \<^verbatim>\<open>average_output_number_scaling\<close> leaves behind: the lines printed, the figure
  given to matplotlib (the two coordinate lists of \<^verbatim>\<open>plt.plot\<close>, the title and the
  x-axis label) and the value the function returns, \<open>None\<close> for Python's \<^verbatim>\<open>None\<close>.
  \<^verbatim>\<open>np.mean\<close> is a parameter, so the type \<open>'m\<close> of a mean is left open.
\<close>

record 'm figure =
  plot_x :: "nat list"
  plot_y :: "'m list"
  title :: string
  xlabel :: string

record 'm scaling_run =
  stdout :: "string list"
  shown :: "'m figure"
  returned :: "(nat \<times> 'm) list option"

fun scaling_loop ::
  "(nat list \<Rightarrow> 'm) \<Rightarrow> (nat \<Rightarrow> harness_randomness) \<Rightarrow> nat \<Rightarrow> nat list
     \<Rightarrow> 'm list \<times> string list \<Rightarrow> error + ('m list \<times> string list)" where
  "scaling_loop np_mean rnd number_of_tests [] s = Inr s"
| "scaling_loop np_mean rnd number_of_tests (i # rest) (average_operations_list, printed) =
     (case test_black_box_classifier (rnd i) (i + 1) number_of_tests of
        Inl e \<Rightarrow> Inl e
      | Inr (number_of_outputs_list, black_box_type_list, lines) \<Rightarrow>
          scaling_loop np_mean rnd number_of_tests rest
            (average_operations_list @ [np_mean number_of_outputs_list], printed @ lines))"

definition average_output_number_scaling ::
  "(nat list \<Rightarrow> 'm) \<Rightarrow> (nat \<Rightarrow> harness_randomness) \<Rightarrow> nat \<Rightarrow> nat
     \<Rightarrow> error + 'm scaling_run" where
  "average_output_number_scaling np_mean rnd maximum_bitstring_length number_of_tests =
     (case scaling_loop np_mean rnd number_of_tests [0..<maximum_bitstring_length] ([], []) of
        Inl e \<Rightarrow> Inl e
      | Inr (average_operations_list, printed) \<Rightarrow>
          Inr \<lparr>stdout = printed,
               shown = \<lparr>plot_x = map (\<lambda>i. i + 1) [0..<maximum_bitstring_length],
                        plot_y = average_operations_list,
                        title = ''Average number of outputs computed for classification'',
                        xlabel = ''Number of bits in bitstring''\<rparr>,
               returned = None\<rparr>)"

subsection \<open>The random source: its contract and sample draws\<close>

text \<open>
  What \<^verbatim>\<open>random.shuffle\<close> guarantees: the shuffled list is a permutation of the list
  it was given.
\<close>

definition shuffles_permute :: "harness_randomness \<Rightarrow> bool" where
  "shuffles_permute rnd \<longleftrightarrow>
     (\<forall>xs. mset (array_shuffle rnd xs) = mset xs) \<and>
     (\<forall>i xs. mset (trial_shuffle rnd i xs) = mset xs)"

text \<open>The arithmetic mean of a list of counts, as a rational number.\<close>

definition arithmetic_mean :: "nat list \<Rightarrow> rat" where
  "arithmetic_mean xs = of_nat (sum_list xs) / of_nat (length xs)"

text \<open>
  One sequence of draws to run the harness and the driver on: the constant bit is 1, the
  output array is rotated by one place, trial \<open>i\<close> draws \<open>i\<close> for its choice and rotates the index
  list by \<open>i\<close>. The driver uses the same draws for every bit-string length.
\<close>

definition sample_randomness :: harness_randomness where
  "sample_randomness =
     \<lparr>constant_choice = 1, array_shuffle = rotate1, trial_choice = id, trial_shuffle = rotate\<rparr>"

definition sample_draws :: "nat \<Rightarrow> harness_randomness" where
  "sample_draws i = sample_randomness"

section \<open>Properties\<close>

subsection \<open>Indexing, permutations and powers of two\<close>

lemma py_index_nat: "k < length xs \<Longrightarrow> py_index xs (int k) = Inr (xs ! k)"
  by (simp add: py_index_def)

lemma py_index_Suc: "k + 1 < length xs \<Longrightarrow> py_index xs (int k + 1) = Inr (xs ! (k + 1))"
  using py_index_nat [of "k + 1" xs] by (simp add: add.commute)

lemma py_index_zero: "0 < length xs \<Longrightarrow> py_index xs 0 = Inr (xs ! 0)"
  using py_index_nat [of 0 xs] by simp

lemma permutation_length: "mset l = mset (map int [0..<N]) \<Longrightarrow> length l = N"
  by (drule mset_eq_length) simp

lemma permutation_distinct: "mset l = mset (map int [0..<N]) \<Longrightarrow> distinct l"
  by (drule mset_eq_imp_distinct_iff) (simp add: distinct_map)

lemma permutation_range:
  "mset l = mset (map int [0..<N]) \<Longrightarrow> i \<in> set l \<Longrightarrow> 0 \<le> i \<and> i < int N"
  by (drule mset_eq_setD) auto

lemma half_power: "1 \<le> n \<Longrightarrow> (2::nat) ^ n div 2 = 2 ^ (n - 1)"
  by (cases n) simp_all

lemma half_less_power: "1 \<le> n \<Longrightarrow> (2::nat) ^ (n - 1) < 2 ^ n"
  by (cases n) simp_all

subsection \<open>Queries\<close>

lemma constant_query:
  "type bb = 0 \<Longrightarrow> output_bit bb = Some b \<Longrightarrow> input_output_operation bb i = Inr b"
  by (simp add: input_output_operation_def)

lemma array_query:
  "type bb \<noteq> 0 \<Longrightarrow> output_array bb = Some arr \<Longrightarrow> 0 \<le> i \<Longrightarrow> i < int (length arr)
     \<Longrightarrow> input_output_operation bb i = Inr (arr ! nat i)"
  by (simp add: input_output_operation_def py_index_def)

subsection \<open>The loop of the classifier\<close>

text \<open>While every output equals the reference, the loop runs to the end of its range.\<close>

lemma classifier_loop_no_mismatch:
  assumes "\<forall>c\<in>set cs. \<exists>i. py_index l (int c + 1) = Inr i \<and> input_output_operation bb i = Inr b"
  shows "classifier_loop bb l cs (t, cnt, b) =
           Inr (t, if cs = [] then cnt else Some (last cs), b)"
  using assms by (induction cs arbitrary: cnt) auto

text \<open>The first output that differs from the reference ends the loop.\<close>

lemma classifier_loop_mismatch:
  assumes "\<forall>c\<in>set pre. \<exists>i. py_index l (int c + 1) = Inr i \<and> input_output_operation bb i = Inr b"
    and "py_index l (int c + 1) = Inr i"
    and "input_output_operation bb i = Inr b'"
    and "b \<noteq> b'"
  shows "classifier_loop bb l (pre @ c # post) (t, cnt, b) = Inr (t + 1, Some c, b)"
  using assms by (induction pre arbitrary: cnt) auto

subsection \<open>Constant oracles\<close>

lemma constant_classified:
  assumes n: "1 \<le> input_bitstring_length bb"
    and ty: "type bb = 0" and out: "output_bit bb = Some b"
    and perm: "mset (shuffle (map int [0..<2 ^ input_bitstring_length bb]))
                = mset (map int [0..<2 ^ input_bitstring_length bb])"
  shows "black_box_classifier shuffle bb = Inr (0, 2 ^ (input_bitstring_length bb - 1) + 1)"
proof -
  define N :: nat where "N = 2 ^ input_bitstring_length bb"
  define K :: nat where "K = 2 ^ (input_bitstring_length bb - 1)"
  define l where "l = shuffle (map int [0..<N])"
  have len: "length l = N"
    using perm permutation_length unfolding l_def N_def by blast
  have half: "N div 2 = K" and KN: "K < N" and K1: "1 \<le> K"
    using n by (simp_all add: N_def K_def half_power half_less_power)
  have first: "py_index l 0 = Inr (l ! 0)"
    using py_index_zero [of l] len KN by simp
  have q: "\<And>i. input_output_operation bb i = Inr b"
    using ty out by (rule constant_query)
  have "\<forall>c\<in>set [0..<K]. \<exists>i. py_index l (int c + 1) = Inr i \<and> input_output_operation bb i = Inr b"
    using py_index_Suc [of _ l] len KN q by auto
  from classifier_loop_no_mismatch [OF this, of 0 None]
  have loop: "classifier_loop bb l [0..<K] (0, None, b) = Inr (0, Some (K - 1), b)"
    using K1 by (simp add: last_upt)
  have "black_box_classifier shuffle bb = Inr (0, K - 1 + 2)"
    unfolding black_box_classifier_def Let_def
    using first q loop unfolding l_def N_def [symmetric] half by simp
  then show ?thesis using K1 unfolding K_def by simp
qed

text \<open>
  Claim C3. For a bit-string length of at least 1, a Constant oracle (type 0, its fixed
  output set) and any shuffle that permutes the index list, the classifier returns type 0
  and the query count \<open>2 ^ (n - 1) + 1\<close>; for \<open>n = 1\<close> that is \<open>(0, 2)\<close>.
\<close>

theorem constant_query_count:
  assumes "1 \<le> input_bitstring_length black_box"
    and "constant_invariant black_box"
    and "mset (shuffle (map int [0..<2 ^ input_bitstring_length black_box]))
           = mset (map int [0..<2 ^ input_bitstring_length black_box])"
  shows "black_box_classifier shuffle black_box
           = Inr (0, 2 ^ (input_bitstring_length black_box - 1) + 1)
         \<and> (input_bitstring_length black_box = 1
              \<longrightarrow> black_box_classifier shuffle black_box = Inr (0, 2))"
proof -
  from assms(2) obtain b where "type black_box = 0" and "output_bit black_box = Some b"
    by (auto simp: constant_invariant_def)
  from constant_classified [where shuffle = shuffle, OF assms(1) this assms(3)]
  have r: "black_box_classifier shuffle black_box
             = Inr (0, 2 ^ (input_bitstring_length black_box - 1) + 1)" .
  then show ?thesis by auto
qed

theorem constant_query_count_witness:
  "1 \<le> input_bitstring_length (general_black_box_init 1 rev 0 3)
   \<and> constant_invariant (general_black_box_init 1 rev 0 3)
   \<and> mset (rev (map int [0..<2 ^ input_bitstring_length (general_black_box_init 1 rev 0 3)]))
       = mset (map int [0..<2 ^ input_bitstring_length (general_black_box_init 1 rev 0 3)])
   \<and> black_box_classifier rev (general_black_box_init 1 rev 0 3) = Inr (0, 5)"
proof -
  have h1: "1 \<le> input_bitstring_length (general_black_box_init 1 rev 0 3)"
    by (simp add: general_black_box_init_def)
  have h2: "constant_invariant (general_black_box_init 1 rev 0 3)"
    by (simp add: constant_invariant_def general_black_box_init_def)
  have h3: "mset (rev (map int [0..<2 ^ input_bitstring_length (general_black_box_init 1 rev 0 3)]))
       = mset (map int [0..<2 ^ input_bitstring_length (general_black_box_init 1 rev 0 3)])"
    by simp
  have n: "input_bitstring_length (general_black_box_init 1 rev 0 3) = 3"
    by (simp add: general_black_box_init_def)
  from constant_query_count [where shuffle = rev, OF h1 h2 h3] h1 h2 h3 show ?thesis
    by (simp add: n)
qed

subsection \<open>Balanced oracles\<close>

text \<open>
  The outputs read along a permutation of the indices are a permutation of the array, so
  no value can fill more than half of them.
\<close>

lemma outputs_along_permutation:
  assumes "mset l = mset (map int [0..<length arr])"
  shows "mset (map (\<lambda>i. arr ! nat i) l) = mset arr"
proof -
  have "mset (map (\<lambda>i. arr ! nat i) l) = image_mset (\<lambda>i. arr ! nat i) (mset l)"
    by simp
  also have "\<dots> = image_mset (\<lambda>i. arr ! nat i) (mset (map int [0..<length arr]))"
    using assms by simp
  also have "\<dots> = mset (map (\<lambda>i. arr ! nat i) (map int [0..<length arr]))"
    by (simp only: mset_map)
  also have "\<dots> = mset (map ((!) arr) [0..<length arr])"
    by (simp add: comp_def)
  also have "\<dots> = mset arr"
    by (simp add: map_nth)
  finally show ?thesis .
qed

lemma count_list_two: "x \<noteq> y \<Longrightarrow> count_list xs x + count_list xs y \<le> length xs"
  by (induction xs) auto

lemma length_takeWhile_le_count: "length (takeWhile (\<lambda>y. y = b) xs) \<le> count_list xs b"
  by (induction xs) auto

lemma balanced_count_bound:
  assumes "length arr = 2 * K" and "count_list arr 0 = K" and "count_list arr (1::int) = K"
  shows "count_list arr b \<le> K"
proof (cases "b = 0")
  case True
  then show ?thesis using assms by simp
next
  case False
  then show ?thesis using count_list_two [of b 0 arr] assms by simp
qed

lemma balanced_classified:
  assumes n: "1 \<le> input_bitstring_length bb"
    and inv: "balanced_invariant bb"
    and perm: "mset (shuffle (map int [0..<2 ^ input_bitstring_length bb]))
                = mset (map int [0..<2 ^ input_bitstring_length bb])"
    and outs: "outs = map (input_output_operation bb)
                        (shuffle (map int [0..<2 ^ input_bitstring_length bb]))"
    and p: "p = first_mismatch_position outs"
  shows "black_box_classifier shuffle bb = Inr (1, 1 + p)"
    and "1 \<le> p" and "p \<le> 2 ^ (input_bitstring_length bb - 1)"
    and "p < length outs"
    and "outs ! p \<noteq> outs ! 0"
    and "\<forall>j<p. outs ! j = outs ! 0"
proof -
  define N :: nat where "N = 2 ^ input_bitstring_length bb"
  define K :: nat where "K = 2 ^ (input_bitstring_length bb - 1)"
  define l where "l = shuffle (map int [0..<N])"
  from inv obtain arr where ty: "type bb = 1" and arr: "output_array bb = Some arr"
    and alen: "length arr = N" and c0: "count_list arr 0 = K" and c1: "count_list arr 1 = K"
    by (auto simp: balanced_invariant_def N_def K_def split: option.splits)
  have pl: "mset l = mset (map int [0..<N])"
    using perm unfolding l_def N_def .
  have len: "length l = N"
    using pl by (rule permutation_length)
  have half: "N div 2 = K" and KN: "K < N" and K1: "1 \<le> K"
    using n by (simp_all add: N_def K_def half_power half_less_power)
  have N2: "N = 2 * K"
    using n by (cases "input_bitstring_length bb") (simp_all add: N_def K_def)
  define vals where "vals = map (\<lambda>i. arr ! nat i) l"
  have q: "input_output_operation bb (l ! j) = Inr (vals ! j)" if "j < N" for j
  proof -
    have "l ! j \<in> set l" using that len by simp
    then have "0 \<le> l ! j \<and> l ! j < int N" using pl permutation_range by blast
    then show ?thesis
      using array_query [of bb arr "l ! j"] ty arr alen that len by (simp add: vals_def)
  qed
  have outs_eq: "outs = map Inr vals"
    unfolding outs N_def [symmetric] l_def [symmetric]
    using q len by (intro nth_equalityI) (simp_all add: vals_def)
  have vlen: "length vals = N" by (simp add: vals_def len)
  have vne: "vals \<noteq> []" using vlen KN by auto
  define b where "b = hd vals"
  have hd_outs: "hd outs = Inr b"
    using vne by (simp add: outs_eq b_def hd_map)
  have p_vals: "p = length (takeWhile (\<lambda>v. v = b) vals)"
    unfolding p first_mismatch_position_def hd_outs
    by (simp add: outs_eq takeWhile_map comp_def)
  have "mset vals = mset arr"
    unfolding vals_def using pl alen outputs_along_permutation by blast
  then have "count_list vals b = count_list arr b"
    by (metis count_mset)
  moreover have "count_list arr b \<le> K"
    using balanced_count_bound [of arr K b] alen N2 c0 c1 by simp
  ultimately show pK: "p \<le> 2 ^ (input_bitstring_length bb - 1)"
    using length_takeWhile_le_count [of b vals] p_vals K_def by simp
  show p1: "1 \<le> p"
    using vne unfolding p_vals b_def by (cases vals) simp_all
  show plen: "p < length outs"
    using pK KN by (simp add: outs_eq vlen K_def)
  have o0: "outs ! 0 = Inr b"
    using hd_outs vne by (simp add: outs_eq hd_conv_nth)
  show mism: "outs ! p \<noteq> outs ! 0"
    using nth_length_takeWhile [of "\<lambda>y. y = hd outs" outs] plen
    unfolding p first_mismatch_position_def hd_outs o0 by simp
  show before: "\<forall>j<p. outs ! j = outs ! 0"
  proof (intro allI impI)
    fix j assume "j < p"
    then have j: "j < length (takeWhile (\<lambda>y. y = hd outs) outs)"
      by (simp add: p first_mismatch_position_def)
    then have "takeWhile (\<lambda>y. y = hd outs) outs ! j \<in> set (takeWhile (\<lambda>y. y = hd outs) outs)"
      by simp
    then have "takeWhile (\<lambda>y. y = hd outs) outs ! j = hd outs"
      by (blast dest: set_takeWhileD)
    then show "outs ! j = outs ! 0"
      using takeWhile_nth [OF j] hd_outs o0 by simp
  qed
  have onth: "outs ! j = Inr (vals ! j)" if "j < N" for j
    using that vlen by (simp add: outs_eq)
  have first: "py_index l 0 = Inr (l ! 0)"
    using py_index_zero [of l] len KN by simp
  have q0: "input_output_operation bb (l ! 0) = Inr b"
    using q [of 0] onth [of 0] o0 KN by simp
  have pre: "\<forall>c\<in>set [0..<p - 1]. \<exists>i. py_index l (int c + 1) = Inr i
                \<and> input_output_operation bb i = Inr b"
  proof
    fix c assume "c \<in> set [0..<p - 1]"
    then have c: "c + 1 < p" by auto
    then have cN: "c + 1 < N" using pK KN K_def by simp
    have "py_index l (int c + 1) = Inr (l ! (c + 1))"
      using py_index_Suc [of c l] cN len by simp
    moreover have "input_output_operation bb (l ! (c + 1)) = Inr b"
      using q [OF cN] onth [OF cN] before c o0 by simp
    ultimately show "\<exists>i. py_index l (int c + 1) = Inr i \<and> input_output_operation bb i = Inr b"
      by blast
  qed
  have pN: "p < N" using pK KN K_def by simp
  have at: "py_index l (int (p - 1) + 1) = Inr (l ! p)"
    using py_index_Suc [of "p - 1" l] pN len p1 by simp
  have neq: "b \<noteq> vals ! p"
    using mism onth [OF pN] o0 by auto
  have split: "[0..<K] = [0..<p - 1] @ (p - 1) # [p..<K]"
  proof -
    have "[0..<(p - 1) + (K - (p - 1))] = [0..<p - 1] @ [p - 1..<(p - 1) + (K - (p - 1))]"
      by (rule upt_add_eq_append) simp
    then have "[0..<K] = [0..<p - 1] @ [p - 1..<K]"
      using pK p1 K_def by simp
    moreover have "[p - 1..<K] = (p - 1) # [p..<K]"
      using pK p1 K_def by (simp add: upt_conv_Cons)
    ultimately show ?thesis by simp
  qed
  have loop: "classifier_loop bb l [0..<K] (0, None, b) = Inr (0 + 1, Some (p - 1), b)"
    unfolding split
    using pre at q [OF pN] neq by (rule classifier_loop_mismatch)
  have "black_box_classifier shuffle bb = Inr (1, p - 1 + 2)"
    unfolding black_box_classifier_def Let_def
    using first q0 loop unfolding l_def N_def [symmetric] half by simp
  then show "black_box_classifier shuffle bb = Inr (1, 1 + p)"
    using p1 by simp
qed

subsection \<open>Oracles of either type\<close>

lemma classifier_loop_returns:
  assumes "\<forall>c\<in>set cs. \<exists>i b. py_index l (int c + 1) = Inr i \<and> input_output_operation bb i = Inr b"
  shows "\<exists>t' cnt' b'. classifier_loop bb l cs (t, cnt, b0) = Inr (t', cnt', b') \<and>
           (if cs = [] then cnt' = cnt else \<exists>c\<in>set cs. cnt' = Some c)"
  using assms
proof (induction cs arbitrary: cnt b0)
  case Nil
  then show ?case by simp
next
  case (Cons c cs)
  then obtain i b where ib: "py_index l (int c + 1) = Inr i" "input_output_operation bb i = Inr b"
    by auto
  show ?case
  proof (cases "b0 = b")
    case True
    from Cons.prems
    have "\<forall>c\<in>set cs. \<exists>i b. py_index l (int c + 1) = Inr i \<and> input_output_operation bb i = Inr b"
      by simp
    from Cons.IH [OF this, of "Some c" b] obtain t' cnt' b' where
      r: "classifier_loop bb l cs (t, Some c, b) = Inr (t', cnt', b')"
         "if cs = [] then cnt' = Some c else \<exists>c\<in>set cs. cnt' = Some c" by blast
    then show ?thesis using ib True by (auto split: if_splits)
  next
    case False
    then show ?thesis using ib by auto
  qed
qed

lemma well_formed_query:
  assumes "well_formed bb" and "0 \<le> i" and "i < int (2 ^ input_bitstring_length bb)"
  shows "\<exists>b. input_output_operation bb i = Inr b"
proof (cases "type bb = 0")
  case True
  then show ?thesis using assms(1) constant_query [of bb] by (auto simp: well_formed_def)
next
  case False
  then obtain arr where "output_array bb = Some arr" "length arr = 2 ^ input_bitstring_length bb"
    using assms(1) by (auto simp: well_formed_def split: option.splits)
  then show ?thesis using array_query [of bb arr i] False assms(2,3) by simp
qed

lemma well_formed_classified:
  assumes n: "1 \<le> input_bitstring_length bb"
    and wf: "well_formed bb"
    and perm: "mset (shuffle (map int [0..<2 ^ input_bitstring_length bb]))
                = mset (map int [0..<2 ^ input_bitstring_length bb])"
  shows "\<exists>t q. black_box_classifier shuffle bb = Inr (t, q) \<and> 2 \<le> q
                \<and> q \<le> 2 ^ (input_bitstring_length bb - 1) + 1"
proof -
  define N :: nat where "N = 2 ^ input_bitstring_length bb"
  define K :: nat where "K = 2 ^ (input_bitstring_length bb - 1)"
  define l where "l = shuffle (map int [0..<N])"
  have pl: "mset l = mset (map int [0..<N])"
    using perm unfolding l_def N_def .
  have len: "length l = N"
    using pl by (rule permutation_length)
  have half: "N div 2 = K" and KN: "K < N" and K1: "1 \<le> K"
    using n by (simp_all add: N_def K_def half_power half_less_power)
  have q: "\<exists>b. input_output_operation bb (l ! j) = Inr b" if "j < N" for j
  proof -
    have "l ! j \<in> set l" using that len by simp
    then have "0 \<le> l ! j \<and> l ! j < int N" using pl permutation_range by blast
    then show ?thesis using well_formed_query [OF wf, of "l ! j"] by (simp add: N_def)
  qed
  have first: "py_index l 0 = Inr (l ! 0)"
    using py_index_zero [of l] len KN by simp
  obtain b0 where q0: "input_output_operation bb (l ! 0) = Inr b0"
    using q [of 0] KN by auto
  have "\<forall>c\<in>set [0..<K]. \<exists>i b. py_index l (int c + 1) = Inr i \<and> input_output_operation bb i = Inr b"
  proof
    fix c assume "c \<in> set [0..<K]"
    then have cN: "c + 1 < N" using KN by simp
    then show "\<exists>i b. py_index l (int c + 1) = Inr i \<and> input_output_operation bb i = Inr b"
      using py_index_Suc [of c l] q [OF cN] len by auto
  qed
  from classifier_loop_returns [OF this, of 0 None b0] K1
  obtain t' c b' where loop: "classifier_loop bb l [0..<K] (0, None, b0) = Inr (t', Some c, b')"
    and c: "c < K"
    by (auto split: if_splits)
  have "black_box_classifier shuffle bb = Inr (t', c + 2)"
    unfolding black_box_classifier_def Let_def
    using first q0 loop unfolding l_def N_def [symmetric] half by simp
  then show ?thesis using c unfolding K_def by simp
qed

text \<open>An oracle that satisfies its invariant is given its own type.\<close>

lemma invariant_classified:
  assumes "1 \<le> input_bitstring_length bb"
    and "constant_invariant bb \<or> balanced_invariant bb"
    and "mset (shuffle (map int [0..<2 ^ input_bitstring_length bb]))
           = mset (map int [0..<2 ^ input_bitstring_length bb])"
  shows "\<exists>q. black_box_classifier shuffle bb = Inr (type bb, q)"
  using assms(2)
proof
  assume "constant_invariant bb"
  then obtain b where ty: "type bb = 0" and "output_bit bb = Some b"
    by (auto simp: constant_invariant_def)
  from constant_classified [where shuffle = shuffle, OF assms(1) this assms(3)] ty
  show ?thesis by simp
next
  assume inv: "balanced_invariant bb"
  then have ty: "type bb = 1" by (simp add: balanced_invariant_def)
  from balanced_classified(1) [where shuffle = shuffle, OF assms(1) inv assms(3) refl refl] ty
  show ?thesis by simp
qed

text \<open>
  Claim C1. For a bit-string length of at least 1, an oracle that satisfies its
  construction invariant (Constant, or Balanced with equal counts of zeros and ones) and
  any shuffle that permutes the index list, the classifier returns the type of the oracle:
  it never misclassifies.
\<close>

theorem classifier_never_misclassifies:
  assumes "1 \<le> input_bitstring_length black_box"
    and "constant_invariant black_box \<or> balanced_invariant black_box"
    and "mset (shuffle (map int [0..<2 ^ input_bitstring_length black_box]))
           = mset (map int [0..<2 ^ input_bitstring_length black_box])"
  shows "\<exists>q. black_box_classifier shuffle black_box = Inr (type black_box, q)"
  using assms by (rule invariant_classified)

theorem classifier_never_misclassifies_witness:
  "1 \<le> input_bitstring_length (general_black_box_init 0 rev 1 2)
   \<and> (constant_invariant (general_black_box_init 0 rev 1 2)
        \<or> balanced_invariant (general_black_box_init 0 rev 1 2))
   \<and> mset (rev (map int [0..<2 ^ input_bitstring_length (general_black_box_init 0 rev 1 2)]))
       = mset (map int [0..<2 ^ input_bitstring_length (general_black_box_init 0 rev 1 2)])
   \<and> (\<exists>q. black_box_classifier rev (general_black_box_init 0 rev 1 2) = Inr (1, q))"
proof -
  have h1: "1 \<le> input_bitstring_length (general_black_box_init 0 rev 1 2)"
    by (simp add: general_black_box_init_def Let_def)
  have h2: "constant_invariant (general_black_box_init 0 rev 1 2)
        \<or> balanced_invariant (general_black_box_init 0 rev 1 2)"
    by code_simp
  have h3: "mset (rev (map int [0..<2 ^ input_bitstring_length (general_black_box_init 0 rev 1 2)]))
       = mset (map int [0..<2 ^ input_bitstring_length (general_black_box_init 0 rev 1 2)])"
    by simp
  have ty: "type (general_black_box_init 0 rev 1 2) = 1"
    by (simp add: general_black_box_init_def Let_def)
  from classifier_never_misclassifies [where shuffle = rev, OF h1 h2 h3] h1 h2 h3
  show ?thesis unfolding ty by blast
qed

text \<open>
  Claim C2. For a bit-string length of at least 1, an oracle of either type whose queried
  attribute is set (an output array having one entry for each bit string) and any shuffle
  that permutes the index list, the classifier returns a query count between 2 and
  \<open>2 ^ (n - 1) + 1\<close>.
\<close>

theorem query_count_bounds:
  assumes "1 \<le> input_bitstring_length black_box"
    and "well_formed black_box"
    and "mset (shuffle (map int [0..<2 ^ input_bitstring_length black_box]))
           = mset (map int [0..<2 ^ input_bitstring_length black_box])"
  shows "\<exists>t q. black_box_classifier shuffle black_box = Inr (t, q) \<and> 2 \<le> q
                \<and> q \<le> 2 ^ (input_bitstring_length black_box - 1) + 1"
  using assms by (rule well_formed_classified)

theorem query_count_bounds_witness:
  "1 \<le> input_bitstring_length (general_black_box_init 0 rev 1 2)
   \<and> well_formed (general_black_box_init 0 rev 1 2)
   \<and> mset (rev (map int [0..<2 ^ input_bitstring_length (general_black_box_init 0 rev 1 2)]))
       = mset (map int [0..<2 ^ input_bitstring_length (general_black_box_init 0 rev 1 2)])
   \<and> (\<exists>t q. black_box_classifier rev (general_black_box_init 0 rev 1 2) = Inr (t, q)
          \<and> 2 \<le> q \<and> q \<le> 3)"
proof -
  have h1: "1 \<le> input_bitstring_length (general_black_box_init 0 rev 1 2)"
    by (simp add: general_black_box_init_def Let_def)
  have h2: "well_formed (general_black_box_init 0 rev 1 2)"
    by code_simp
  have h3: "mset (rev (map int [0..<2 ^ input_bitstring_length (general_black_box_init 0 rev 1 2)]))
       = mset (map int [0..<2 ^ input_bitstring_length (general_black_box_init 0 rev 1 2)])"
    by simp
  have n: "input_bitstring_length (general_black_box_init 0 rev 1 2) = 2"
    by (simp add: general_black_box_init_def Let_def)
  from query_count_bounds [where shuffle = rev, OF h1 h2 h3] h1 h2 h3
  show ?thesis by (simp add: n)
qed

text \<open>
  Claim C4. For a bit-string length of at least 1, a Balanced oracle with equal counts and
  any shuffle that permutes the index list, the classifier returns type 1 and a query count
  of 1 plus the position of the first output mismatch in the permutation; that count is at
  most \<open>2 ^ (n - 1) + 1\<close>. The position is a real mismatch: it lies inside the
  permutation, the output there differs from the first one, and every output before it
  equals the first one.
\<close>

theorem balanced_query_count:
  assumes "1 \<le> input_bitstring_length black_box"
    and "balanced_invariant black_box"
    and "mset (shuffle (map int [0..<2 ^ input_bitstring_length black_box]))
           = mset (map int [0..<2 ^ input_bitstring_length black_box])"
  shows "black_box_classifier shuffle black_box
           = Inr (1, 1 + first_mismatch_position (queried_outputs shuffle black_box))
         \<and> 1 + first_mismatch_position (queried_outputs shuffle black_box)
             \<le> 2 ^ (input_bitstring_length black_box - 1) + 1
         \<and> first_mismatch_position (queried_outputs shuffle black_box)
             < length (queried_outputs shuffle black_box)
         \<and> queried_outputs shuffle black_box
               ! first_mismatch_position (queried_outputs shuffle black_box)
             \<noteq> queried_outputs shuffle black_box ! 0
         \<and> (\<forall>j < first_mismatch_position (queried_outputs shuffle black_box).
               queried_outputs shuffle black_box ! j = queried_outputs shuffle black_box ! 0)"
proof -
  note b = balanced_classified [where shuffle = shuffle, OF assms,
      of "queried_outputs shuffle black_box"
         "first_mismatch_position (queried_outputs shuffle black_box)",
      OF queried_outputs_def refl]
  have "1 + first_mismatch_position (queried_outputs shuffle black_box)
          \<le> 2 ^ (input_bitstring_length black_box - 1) + 1"
    using b(3) by simp
  with b(1) b(4) b(5) b(6) show ?thesis by blast
qed

theorem balanced_query_count_witness:
  "1 \<le> input_bitstring_length (general_black_box_init 0 rev 1 2)
   \<and> balanced_invariant (general_black_box_init 0 rev 1 2)
   \<and> mset (rev (map int [0..<2 ^ input_bitstring_length (general_black_box_init 0 rev 1 2)]))
       = mset (map int [0..<2 ^ input_bitstring_length (general_black_box_init 0 rev 1 2)])
   \<and> first_mismatch_position (queried_outputs rev (general_black_box_init 0 rev 1 2)) = 2
   \<and> black_box_classifier rev (general_black_box_init 0 rev 1 2) = Inr (1, 3)"
proof -
  have h1: "1 \<le> input_bitstring_length (general_black_box_init 0 rev 1 2)"
    by (simp add: general_black_box_init_def Let_def)
  have h2: "balanced_invariant (general_black_box_init 0 rev 1 2)"
    by code_simp
  have h3: "mset (rev (map int [0..<2 ^ input_bitstring_length (general_black_box_init 0 rev 1 2)]))
       = mset (map int [0..<2 ^ input_bitstring_length (general_black_box_init 0 rev 1 2)])"
    by simp
  have p: "first_mismatch_position (queried_outputs rev (general_black_box_init 0 rev 1 2)) = 2"
    by code_simp
  from balanced_query_count [where shuffle = rev, OF h1 h2 h3] h1 h2 h3 p
  show ?thesis by simp
qed

subsection \<open>Construction of a Balanced oracle\<close>

lemma count_list_replicate: "count_list (replicate k x) y = (if x = y then k else 0)"
  by (induction k) auto

lemma count_list_permutation: "mset xs = mset ys \<Longrightarrow> count_list xs v = count_list ys v"
  by (metis count_mset)

lemma init_balanced_array:
  assumes n: "1 \<le> n" and ty: "black_box_type \<noteq> 0"
    and sh: "\<forall>xs. mset (shuffle xs) = mset xs"
  shows "\<exists>arr. output_array (general_black_box_init choice shuffle black_box_type n) = Some arr
           \<and> length arr = 2 ^ n
           \<and> count_list arr 0 = 2 ^ (n - 1)
           \<and> count_list arr 1 = 2 ^ (n - 1)"
proof -
  define xs :: "int list" where "xs = replicate (2 ^ n div 2) 0 @ replicate (2 ^ n div 2) 1"
  have arr: "output_array (general_black_box_init choice shuffle black_box_type n) = Some (shuffle xs)"
    using ty by (simp add: general_black_box_init_def Let_def xs_def)
  have p: "mset (shuffle xs) = mset xs" using sh by simp
  have "length (shuffle xs) = length xs" using p by (rule mset_eq_length)
  moreover have "length xs = 2 ^ n"
    using n by (cases n) (simp_all add: xs_def)
  moreover have "count_list (shuffle xs) 0 = count_list xs 0"
    and "count_list (shuffle xs) 1 = count_list xs 1"
    using p by (rule count_list_permutation)+
  moreover have "count_list xs 0 = 2 ^ (n - 1)" and "count_list xs 1 = 2 ^ (n - 1)"
    using n by (simp_all add: xs_def count_list_replicate half_power)
  ultimately show ?thesis using arr by simp
qed

text \<open>
  Claim C5. For a bit-string length of at least 1 and any shuffle that permutes its
  argument, the constructor called with type 1 sets an output array of length \<open>2 ^ n\<close>
  with exactly \<open>2 ^ (n - 1)\<close> zeros and exactly \<open>2 ^ (n - 1)\<close> ones.
\<close>

theorem balanced_construction_counts:
  assumes "1 \<le> n" and "\<forall>xs. mset (shuffle xs) = mset xs"
  shows "\<exists>arr. output_array (general_black_box_init choice shuffle 1 n) = Some arr
           \<and> length arr = 2 ^ n
           \<and> count_list arr 0 = 2 ^ (n - 1)
           \<and> count_list arr 1 = 2 ^ (n - 1)"
  using init_balanced_array [where shuffle = shuffle, OF assms(1) _ assms(2), of 1 choice] by simp

theorem balanced_construction_counts_witness:
  "(1::nat) \<le> 3 \<and> (\<forall>xs::int list. mset (rev xs) = mset xs)
   \<and> (\<exists>arr. output_array (general_black_box_init 0 rev 1 3) = Some arr
           \<and> length arr = 8 \<and> count_list arr 0 = 4 \<and> count_list arr 1 = 4)"
proof -
  have h1: "(1::nat) \<le> 3" by simp
  have h2: "\<forall>xs::int list. mset (rev xs) = mset xs" by simp
  from balanced_construction_counts [where shuffle = rev, OF h1 h2, of 0] h1 h2
  show ?thesis by simp
qed

subsection \<open>Queries outside the index range\<close>

text \<open>
  Claim C6 says that a query with an index outside \<open>[0, 2 ^ n)\<close> is rejected with an
  error. It is not: with \<open>n = 1\<close> a Constant oracle answers index 5 with its fixed bit,
  and a Balanced oracle answers index \<open>-1\<close> with its last array entry.
\<close>

theorem out_of_range_query_counterexample:
  "input_output_operation (general_black_box_init 1 rev 0 1) 5 = Inr 1
   \<and> input_output_operation (general_black_box_init 1 rev 1 1) (- 1) = Inr 0"
  by (simp add: input_output_operation_def general_black_box_init_def py_index_def)

text \<open>
  Claim C6 as amended. For an index outside \<open>[0, 2 ^ n)\<close>, a Constant oracle returns its
  fixed bit; a Balanced oracle with an array of length \<open>2 ^ n\<close> raises IndexError when
  the index is at least \<open>2 ^ n\<close> or below \<open>- 2 ^ n\<close>, and returns the array entry at
  \<open>2 ^ n + index\<close> when the index lies in \<open>[- 2 ^ n, 0)\<close>.
\<close>

theorem out_of_range_query:
  assumes "i < 0 \<or> 2 ^ input_bitstring_length black_box \<le> i"
  shows "(type black_box = 0 \<and> output_bit black_box = Some b
            \<longrightarrow> input_output_operation black_box i = Inr b)
         \<and> (type black_box \<noteq> 0 \<and> output_array black_box = Some arr
              \<and> length arr = 2 ^ input_bitstring_length black_box
            \<longrightarrow> input_output_operation black_box i
                  = (if i < - (2 ^ input_bitstring_length black_box)
                        \<or> 2 ^ input_bitstring_length black_box \<le> i
                     then Inl IndexError
                     else Inr (arr ! nat (2 ^ input_bitstring_length black_box + i))))"
  using assms by (auto simp: input_output_operation_def py_index_def Let_def)

theorem out_of_range_query_witness:
  "((2::int) < 0 \<or> 2 ^ input_bitstring_length (general_black_box_init 1 rev 1 1) \<le> (2::int))
   \<and> input_output_operation (general_black_box_init 1 rev 1 1) 2 = Inl IndexError"
proof -
  have h: "(2::int) < 0 \<or> 2 ^ input_bitstring_length (general_black_box_init 1 rev 1 1) \<le> (2::int)"
    by (simp add: general_black_box_init_def Let_def)
  have a: "type (general_black_box_init 1 rev 1 1) \<noteq> 0
           \<and> output_array (general_black_box_init 1 rev 1 1) = Some [1, 0]
           \<and> length [1, 0::int] = 2 ^ input_bitstring_length (general_black_box_init 1 rev 1 1)"
    by (simp add: general_black_box_init_def Let_def)
  from out_of_range_query [OF h, of 0 "[1, 0]"] a h
  show ?thesis by (simp add: general_black_box_init_def Let_def)
qed

subsection \<open>Running reference and first reference\<close>

lemma first_reference_loop_eq:
  "first_reference_loop bb l cs (t, cnt, b) = classifier_loop bb l cs (t, cnt, b)"
  by (induction cs arbitrary: cnt) (auto split: sum.splits)

text \<open>
  Claim C9. Overwriting the reference output with the latest output in each iteration
  gives the same result (verdict and query count, or the same exception) as comparing
  every output with the first one, for every oracle and every shuffle.
\<close>

theorem running_reference_equivalent:
  "black_box_classifier shuffle black_box
     = black_box_classifier_first_reference shuffle black_box"
  unfolding black_box_classifier_def black_box_classifier_first_reference_def
    first_reference_loop_eq
  by (rule refl)

subsection \<open>The indices queried\<close>

lemma classifier_loop_log_result:
  "snd (classifier_loop_log bb l cs s queried) = classifier_loop bb l cs s"
proof (induction cs arbitrary: s queried)
  case Nil
  show ?case by simp
next
  case (Cons c cs)
  obtain t cnt b where s: "s = (t, cnt, b)" by (cases s)
  show ?case unfolding s using Cons.IH by (simp split: sum.splits)
qed

lemma black_box_classifier_log_result:
  "snd (black_box_classifier_log shuffle bb) = black_box_classifier shuffle bb"
proof -
  have "snd (case r of (queried, Inl e) \<Rightarrow> (queried, Inl e)
               | (queried, Inr (t, cnt, b)) \<Rightarrow>
                   (case cnt of None \<Rightarrow> (queried, Inl UnboundLocalError)
                    | Some c \<Rightarrow> (queried, Inr (t, c + 2))))
        = (case snd r of Inl e \<Rightarrow> Inl e
           | Inr (t, cnt, b) \<Rightarrow>
               (case cnt of None \<Rightarrow> Inl UnboundLocalError | Some c \<Rightarrow> Inr (t, c + (2::nat))))"
    for r :: "int list \<times> (error + (int \<times> nat option \<times> int))"
    by (simp split: prod.splits sum.splits option.splits)
  then show ?thesis
    unfolding black_box_classifier_log_def black_box_classifier_def Let_def
    by (simp add: classifier_loop_log_result split: sum.splits)
qed

text \<open>A successful read at a non-negative index is in range.\<close>

lemma py_index_Suc_Inr:
  "py_index l (int k + 1) = Inr i \<Longrightarrow> Suc k < length l \<and> i = l ! Suc k"
  by (auto simp: py_index_def Let_def nat_add_distrib split: if_splits)

lemma py_index_zero_Inr:
  "py_index l 0 = Inr i \<Longrightarrow> 0 < length l \<and> i = l ! 0"
  by (auto simp: py_index_def Let_def split: if_splits)

lemma classifier_loop_log_trace:
  assumes "queried = take (Suc k) l"
    and "\<forall>c0. cnt = Some c0 \<longrightarrow> Suc c0 = k \<and> Suc k \<le> length l"
  shows "\<exists>m. fst (classifier_loop_log bb l [k..<K] (t, cnt, b) queried) = take m l
           \<and> Suc k \<le> m \<and> m \<le> max (Suc k) (Suc K)
           \<and> (\<forall>t' c b'. snd (classifier_loop_log bb l [k..<K] (t, cnt, b) queried)
                            = Inr (t', Some c, b') \<longrightarrow> m = c + 2 \<and> c + 2 \<le> length l)"
  using assms
proof (induction "K - k" arbitrary: k cnt b queried)
  case 0
  then have "[k..<K] = []" by simp
  then show ?case using "0.prems" by auto
next
  case (Suc d)
  then have kK: "k < K" by simp
  then have range: "[k..<K] = k # [Suc k..<K]" by (simp add: upt_conv_Cons)
  show ?case
  proof (cases "py_index l (int k + 1)")
    case (Inl e)
    then show ?thesis unfolding range using Suc.prems by auto
  next
    case (Inr i)
    then have i: "Suc k < length l" "i = l ! Suc k" using py_index_Suc_Inr [of l k i] by simp_all
    have app: "queried @ [i] = take (Suc (Suc k)) l"
      using i Suc.prems(1) by (simp add: take_Suc_conv_app_nth)
    show ?thesis
    proof (cases "input_output_operation bb i")
      case (Inl e)
      then show ?thesis unfolding range using Inr app kK by auto
    next
      case out: (Inr b2)
      show ?thesis
      proof (cases "b = b2")
        case False
        then show ?thesis unfolding range using Inr out app kK i by auto
      next
        case True
        have d: "d = K - Suc k" using Suc.hyps(2) by simp
        have inv: "\<forall>c0. Some k = Some c0 \<longrightarrow> Suc c0 = Suc k \<and> Suc (Suc k) \<le> length l"
          using i by simp
        from Suc.hyps(1) [OF d app inv, of b2]
        obtain m where m: "fst (classifier_loop_log bb l [Suc k..<K] (t, Some k, b2) (queried @ [i])) = take m l"
          "Suc (Suc k) \<le> m" "m \<le> max (Suc (Suc k)) (Suc K)"
          "\<forall>t' c b'. snd (classifier_loop_log bb l [Suc k..<K] (t, Some k, b2) (queried @ [i]))
                            = Inr (t', Some c, b') \<longrightarrow> m = c + 2 \<and> c + 2 \<le> length l"
          by blast
        have step: "classifier_loop_log bb l [k..<K] (t, cnt, b) queried
                    = classifier_loop_log bb l [Suc k..<K] (t, Some k, b2) (queried @ [i])"
          unfolding range using Inr out True by simp
        show ?thesis unfolding step using m kK by (intro exI [of _ m]) auto
      qed
    qed
  qed
qed

lemma black_box_classifier_log_trace:
  "\<exists>m. fst (black_box_classifier_log shuffle bb)
          = take m (shuffle (map int [0..<2 ^ input_bitstring_length bb]))
       \<and> m \<le> 2 ^ input_bitstring_length bb div 2 + 1
       \<and> (\<forall>t q. snd (black_box_classifier_log shuffle bb) = Inr (t, q)
             \<longrightarrow> m = q \<and> q \<le> length (shuffle (map int [0..<2 ^ input_bitstring_length bb])))"
proof -
  define l where "l = shuffle (map int [0..<2 ^ input_bitstring_length bb])"
  define K :: nat where "K = 2 ^ input_bitstring_length bb div 2"
  show ?thesis
  proof (cases "py_index l 0")
    case (Inl e)
    then show ?thesis
      unfolding black_box_classifier_log_def Let_def l_def [symmetric]
      by (intro exI [of _ 0]) simp
  next
    case (Inr i)
    then have i: "0 < length l" "i = l ! 0" using py_index_zero_Inr [of l i] by simp_all
    then have one: "[i] = take (Suc 0) l"
      by (cases l) simp_all
    show ?thesis
    proof (cases "input_output_operation bb i")
      case (Inl e)
      then show ?thesis
        unfolding black_box_classifier_log_def Let_def l_def [symmetric]
        using Inr one by (intro exI [of _ 1]) simp
    next
      case out: (Inr b)
      from classifier_loop_log_trace [OF one, of None bb K 0 b]
      obtain m where m: "fst (classifier_loop_log bb l [0..<K] (0, None, b) [i]) = take m l"
        "m \<le> Suc K"
        "\<forall>t' c b'. snd (classifier_loop_log bb l [0..<K] (0, None, b) [i])
                            = Inr (t', Some c, b') \<longrightarrow> m = c + 2 \<and> c + 2 \<le> length l"
        by auto
      obtain lg r where r: "classifier_loop_log bb l [0..<K] (0, None, b) [i] = (lg, r)"
        by (cases "classifier_loop_log bb l [0..<K] (0, None, b) [i]")
      have "fst (black_box_classifier_log shuffle bb) = take m l"
        unfolding black_box_classifier_log_def Let_def l_def [symmetric] K_def [symmetric]
        using Inr out m(1) r by (simp split: sum.splits option.splits prod.splits)
      moreover have "\<forall>t q. snd (black_box_classifier_log shuffle bb) = Inr (t, q)
             \<longrightarrow> m = q \<and> q \<le> length l"
        unfolding black_box_classifier_log_def Let_def l_def [symmetric] K_def [symmetric]
        using Inr out m(3) r by (auto split: sum.splits option.splits prod.splits)
      ultimately show ?thesis
        using m(2) unfolding l_def K_def by (intro exI [of _ m]) simp
    qed
  qed
qed

text \<open>
  Claim C10. For a bit-string length of at least 1 and any shuffle that permutes the
  index list, the indices passed to the query operation are pairwise distinct and lie in
  \<open>[0, 2 ^ n)\<close>: they are the first \<open>m\<close> entries of the permutation for some
  \<open>m \<le> 2 ^ (n - 1) + 1\<close>. The log leaves the result unchanged, its length is the query
  count returned, and a lookup in an array of length \<open>2 ^ n\<close> is in bounds at each of them.
\<close>

theorem queried_indices_distinct_in_range:
  assumes "1 \<le> input_bitstring_length black_box"
    and "mset (shuffle (map int [0..<2 ^ input_bitstring_length black_box]))
           = mset (map int [0..<2 ^ input_bitstring_length black_box])"
  shows "distinct (fst (black_box_classifier_log shuffle black_box))
         \<and> (\<forall>i\<in>set (fst (black_box_classifier_log shuffle black_box)).
               0 \<le> i \<and> i < 2 ^ input_bitstring_length black_box)
         \<and> (\<exists>m\<le>2 ^ (input_bitstring_length black_box - 1) + 1.
               fst (black_box_classifier_log shuffle black_box)
                 = take m (shuffle (map int [0..<2 ^ input_bitstring_length black_box])))
         \<and> snd (black_box_classifier_log shuffle black_box)
             = black_box_classifier shuffle black_box
         \<and> (\<forall>t q. black_box_classifier shuffle black_box = Inr (t, q)
               \<longrightarrow> length (fst (black_box_classifier_log shuffle black_box)) = q)
         \<and> (\<forall>arr. output_array black_box = Some arr
                 \<and> length arr = 2 ^ input_bitstring_length black_box
               \<longrightarrow> (\<forall>i\<in>set (fst (black_box_classifier_log shuffle black_box)).
                      py_index arr i = Inr (arr ! nat i)))"
proof -
  define l where "l = shuffle (map int [0..<2 ^ input_bitstring_length black_box])"
  define lg where "lg = fst (black_box_classifier_log shuffle black_box)"
  have pl: "mset l = mset (map int [0..<2 ^ input_bitstring_length black_box])"
    using assms(2) unfolding l_def .
  have res: "snd (black_box_classifier_log shuffle black_box)
               = black_box_classifier shuffle black_box"
    by (rule black_box_classifier_log_result)
  from black_box_classifier_log_trace [of shuffle black_box]
  obtain m where m: "lg = take m l"
    "m \<le> 2 ^ input_bitstring_length black_box div 2 + 1"
    "\<forall>t q. black_box_classifier shuffle black_box = Inr (t, q) \<longrightarrow> m = q \<and> q \<le> length l"
    unfolding res l_def lg_def by blast
  have d: "distinct lg"
    unfolding m(1) using permutation_distinct [OF pl] by simp
  have sub: "set lg \<subseteq> set l"
    unfolding m(1) by (rule set_take_subset)
  have r: "\<forall>i\<in>set lg. 0 \<le> i \<and> i < 2 ^ input_bitstring_length black_box"
    using sub permutation_range [OF pl] by auto
  have mb: "m \<le> 2 ^ (input_bitstring_length black_box - 1) + 1"
    using m(2) assms(1) by (simp add: half_power)
  have len: "\<forall>t q. black_box_classifier shuffle black_box = Inr (t, q) \<longrightarrow> length lg = q"
    using m(3) unfolding m(1) by auto
  have inb: "\<forall>arr. output_array black_box = Some arr
                 \<and> length arr = 2 ^ input_bitstring_length black_box
               \<longrightarrow> (\<forall>i\<in>set lg. py_index arr i = Inr (arr ! nat i))"
    using r by (auto simp: py_index_def)
  from d r mb m(1) res len inb show ?thesis
    unfolding lg_def l_def by blast
qed

theorem queried_indices_distinct_in_range_witness:
  "1 \<le> input_bitstring_length (general_black_box_init 0 rev 1 2)
   \<and> mset (rev (map int [0..<2 ^ input_bitstring_length (general_black_box_init 0 rev 1 2)]))
       = mset (map int [0..<2 ^ input_bitstring_length (general_black_box_init 0 rev 1 2)])
   \<and> fst (black_box_classifier_log rev (general_black_box_init 0 rev 1 2)) = [3, 2, 1]
   \<and> distinct (fst (black_box_classifier_log rev (general_black_box_init 0 rev 1 2)))"
proof -
  have h1: "1 \<le> input_bitstring_length (general_black_box_init 0 rev 1 2)"
    by (simp add: general_black_box_init_def Let_def)
  have h2: "mset (rev (map int [0..<2 ^ input_bitstring_length (general_black_box_init 0 rev 1 2)]))
       = mset (map int [0..<2 ^ input_bitstring_length (general_black_box_init 0 rev 1 2)])"
    by simp
  have lg: "fst (black_box_classifier_log rev (general_black_box_init 0 rev 1 2)) = [3, 2, 1]"
    by code_simp
  from queried_indices_distinct_in_range [where shuffle = rev, OF h1 h2] h1 h2 lg
  show ?thesis by blast
qed

subsection \<open>The trial harness\<close>

lemma init_length: "input_bitstring_length (general_black_box_init c sh ty n) = n"
  by (simp add: general_black_box_init_def Let_def)

lemma init_type: "type (general_black_box_init c sh ty n) = ty"
  by (simp add: general_black_box_init_def Let_def)

lemma init_constant_invariant: "constant_invariant (general_black_box_init c sh 0 n)"
  by (simp add: constant_invariant_def general_black_box_init_def)

lemma init_balanced_invariant:
  assumes "1 \<le> n" and "\<forall>xs. mset (sh xs) = mset xs"
  shows "balanced_invariant (general_black_box_init c sh 1 n)"
  using init_balanced_array [where shuffle = sh, OF assms(1) _ assms(2), of 1 c]
  by (auto simp: balanced_invariant_def init_length init_type)

lemma random_choice_two:
  "random_choice r [x, y] = Inr (if even r then x else y)"
proof -
  have len: "length [x, y] = 2" by simp
  have "[x, y] ! (r mod 2) = (if even r then x else y)"
    by (cases "even r") (simp_all add: even_iff_mod_2_eq_zero odd_iff_mod_2_eq_one)
  then show ?thesis
    unfolding random_choice_def len by simp
qed

lemma test_loop_results:
  assumes "\<forall>i\<in>set trials. \<exists>q.
             black_box_classifier (trial_shuffle rnd i) (if even (trial_choice rnd i) then bb1 else bb2)
               = Inr (type (if even (trial_choice rnd i) then bb1 else bb2), q)"
  shows "\<exists>qs ts. test_loop rnd bb1 bb2 trials (outs, types, printed)
                    = Inr (outs @ qs, types @ ts, printed)
           \<and> length qs = length trials \<and> length ts = length trials
           \<and> (\<forall>j<length trials.
                 black_box_classifier (trial_shuffle rnd (trials ! j))
                   (if even (trial_choice rnd (trials ! j)) then bb1 else bb2)
                 = Inr (ts ! j, qs ! j))"
  using assms
proof (induction trials arbitrary: outs types)
  case Nil
  show ?case by simp
next
  case (Cons i rest)
  define bb where "bb = (if even (trial_choice rnd i) then bb1 else bb2)"
  from Cons.prems obtain q where
    q: "black_box_classifier (trial_shuffle rnd i) bb = Inr (type bb, q)"
    unfolding bb_def by auto
  from Cons.prems have "\<forall>i\<in>set rest. \<exists>q.
             black_box_classifier (trial_shuffle rnd i) (if even (trial_choice rnd i) then bb1 else bb2)
               = Inr (type (if even (trial_choice rnd i) then bb1 else bb2), q)"
    by simp
  from Cons.IH [OF this, of "outs @ [q]" "types @ [type bb]"]
  obtain qs ts where
    r: "test_loop rnd bb1 bb2 rest (outs @ [q], types @ [type bb], printed)
          = Inr ((outs @ [q]) @ qs, (types @ [type bb]) @ ts, printed)"
      "length qs = length rest" "length ts = length rest"
      "\<forall>j<length rest.
                 black_box_classifier (trial_shuffle rnd (rest ! j))
                   (if even (trial_choice rnd (rest ! j)) then bb1 else bb2)
                 = Inr (ts ! j, qs ! j)"
    by blast
  have step: "test_loop rnd bb1 bb2 (i # rest) (outs, types, printed)
                = Inr (outs @ (q # qs), types @ (type bb # ts), printed)"
    using q r(1) by (simp add: random_choice_two bb_def [symmetric])
  have "\<forall>j<length (i # rest).
                 black_box_classifier (trial_shuffle rnd ((i # rest) ! j))
                   (if even (trial_choice rnd ((i # rest) ! j)) then bb1 else bb2)
                 = Inr ((type bb # ts) ! j, (q # qs) ! j)"
  proof (intro allI impI)
    fix j assume "j < length (i # rest)"
    then show "black_box_classifier (trial_shuffle rnd ((i # rest) ! j))
                   (if even (trial_choice rnd ((i # rest) ! j)) then bb1 else bb2)
                 = Inr ((type bb # ts) ! j, (q # qs) ! j)"
      using q r(4) unfolding bb_def by (cases j) simp_all
  qed
  with step r(2,3) show ?case
    by (intro exI [of _ "q # qs"] exI [of _ "type bb # ts"]) simp
qed


lemma harness_results:
  assumes n: "1 \<le> n" and sh: "shuffles_permute rnd"
  shows "\<exists>qs ts. test_black_box_classifier rnd n trial_count = Inr (qs, ts, [])
           \<and> length qs = trial_count \<and> length ts = trial_count
           \<and> (\<forall>i<trial_count.
                 black_box_classifier (trial_shuffle rnd i)
                   (if even (trial_choice rnd i)
                    then general_black_box_init (constant_choice rnd) (array_shuffle rnd) 1 n
                    else general_black_box_init (constant_choice rnd) (array_shuffle rnd) 0 n)
                 = Inr (ts ! i, qs ! i))"
proof -
  define bb1 where "bb1 = general_black_box_init (constant_choice rnd) (array_shuffle rnd) 1 n"
  define bb2 where "bb2 = general_black_box_init (constant_choice rnd) (array_shuffle rnd) 0 n"
  have b1: "balanced_invariant bb1"
    unfolding bb1_def using n sh by (intro init_balanced_invariant) (simp_all add: shuffles_permute_def)
  have b2: "constant_invariant bb2"
    unfolding bb2_def by (rule init_constant_invariant)
  have len: "input_bitstring_length bb1 = n" "input_bitstring_length bb2 = n"
    by (simp_all add: bb1_def bb2_def init_length)
  have "\<forall>i\<in>set [0..<trial_count]. \<exists>q.
             black_box_classifier (trial_shuffle rnd i) (if even (trial_choice rnd i) then bb1 else bb2)
               = Inr (type (if even (trial_choice rnd i) then bb1 else bb2), q)"
  proof
    fix i assume "i \<in> set [0..<trial_count]"
    define bb where "bb = (if even (trial_choice rnd i) then bb1 else bb2)"
    have l: "input_bitstring_length bb = n" using len by (simp add: bb_def)
    have inv: "constant_invariant bb \<or> balanced_invariant bb"
      using b1 b2 by (simp add: bb_def)
    have p: "mset (trial_shuffle rnd i (map int [0..<2 ^ input_bitstring_length bb]))
               = mset (map int [0..<2 ^ input_bitstring_length bb])"
      using sh by (simp add: shuffles_permute_def)
    from invariant_classified [where shuffle = "trial_shuffle rnd i", OF _ inv p] n l
    show "\<exists>q. black_box_classifier (trial_shuffle rnd i) (if even (trial_choice rnd i) then bb1 else bb2)
               = Inr (type (if even (trial_choice rnd i) then bb1 else bb2), q)"
      unfolding bb_def by simp
  qed
  from test_loop_results [OF this, of "[]" "[]" "[]"]
  show ?thesis
    unfolding test_black_box_classifier_def Let_def bb1_def [symmetric] bb2_def [symmetric]
    by simp
qed

lemma mset_rotate1_eq: "mset (rotate1 xs) = mset xs"
  by (cases xs) simp_all

lemma mset_rotate_eq: "mset (rotate i xs) = mset xs"
  by (induction i) (simp_all add: mset_rotate1_eq)

lemma sample_shuffles_permute: "shuffles_permute sample_randomness"
  by (simp add: shuffles_permute_def sample_randomness_def mset_rotate1_eq mset_rotate_eq)

text \<open>
  Claim C8. For a bit-string length of at least 1, any number of trials and shuffles that
  permute, the harness builds one Balanced and one Constant oracle, the same two for every
  trial, and returns two lists whose length is the number of trials: entry \<open>i\<close> of each is
  what the classifier returns in trial \<open>i\<close> on the instance \<^verbatim>\<open>random.choice\<close> picked. Of
  the two instances, which differ, an even raw draw picks the Balanced one and an odd raw
  draw the Constant one: each has one of the two outcomes of a uniform draw below 2. No
  misclassification is printed.
\<close>

theorem harness_reuses_two_oracles:
  assumes "1 \<le> n" and "shuffles_permute rnd"
  shows "balanced_invariant
           (general_black_box_init (constant_choice rnd) (array_shuffle rnd) 1 n)
         \<and> constant_invariant
             (general_black_box_init (constant_choice rnd) (array_shuffle rnd) 0 n)
         \<and> general_black_box_init (constant_choice rnd) (array_shuffle rnd) 1 n
             \<noteq> general_black_box_init (constant_choice rnd) (array_shuffle rnd) 0 n
         \<and> (\<forall>r. random_choice r
                   [general_black_box_init (constant_choice rnd) (array_shuffle rnd) 1 n,
                    general_black_box_init (constant_choice rnd) (array_shuffle rnd) 0 n]
                 = Inr (if even r
                        then general_black_box_init (constant_choice rnd) (array_shuffle rnd) 1 n
                        else general_black_box_init (constant_choice rnd) (array_shuffle rnd) 0 n))
         \<and> (\<exists>qs ts. test_black_box_classifier rnd n trial_count = Inr (qs, ts, [])
               \<and> length qs = trial_count \<and> length ts = trial_count
               \<and> (\<forall>i<trial_count.
                     black_box_classifier (trial_shuffle rnd i)
                       (if even (trial_choice rnd i)
                        then general_black_box_init (constant_choice rnd) (array_shuffle rnd) 1 n
                        else general_black_box_init (constant_choice rnd) (array_shuffle rnd) 0 n)
                     = Inr (ts ! i, qs ! i)))"
proof -
  have "balanced_invariant (general_black_box_init (constant_choice rnd) (array_shuffle rnd) 1 n)"
    using assms by (intro init_balanced_invariant) (simp_all add: shuffles_permute_def)
  moreover have "constant_invariant
             (general_black_box_init (constant_choice rnd) (array_shuffle rnd) 0 n)"
    by (rule init_constant_invariant)
  moreover have "general_black_box_init (constant_choice rnd) (array_shuffle rnd) 1 n
             \<noteq> general_black_box_init (constant_choice rnd) (array_shuffle rnd) 0 n"
    using init_type [of "constant_choice rnd" "array_shuffle rnd" 1 n]
      init_type [of "constant_choice rnd" "array_shuffle rnd" 0 n]
    by auto
  moreover have "\<forall>r. random_choice r
                   [general_black_box_init (constant_choice rnd) (array_shuffle rnd) 1 n,
                    general_black_box_init (constant_choice rnd) (array_shuffle rnd) 0 n]
                 = Inr (if even r
                        then general_black_box_init (constant_choice rnd) (array_shuffle rnd) 1 n
                        else general_black_box_init (constant_choice rnd) (array_shuffle rnd) 0 n)"
    by (simp only: random_choice_two) simp
  ultimately show ?thesis
    using harness_results [OF assms, of trial_count] by blast
qed

theorem harness_reuses_two_oracles_witness:
  "(1::nat) \<le> 2 \<and> shuffles_permute sample_randomness
   \<and> test_black_box_classifier sample_randomness 2 3 = Inr ([2, 3, 2], [1, 0, 1], [])
   \<and> balanced_invariant
        (general_black_box_init (constant_choice sample_randomness)
           (array_shuffle sample_randomness) 1 2)"
proof -
  have h1: "(1::nat) \<le> 2" by simp
  have h2: "shuffles_permute sample_randomness"
    by (rule sample_shuffles_permute)
  have run: "test_black_box_classifier sample_randomness 2 3 = Inr ([2, 3, 2], [1, 0, 1], [])"
    by code_simp
  from harness_reuses_two_oracles [OF h1 h2, of 3] h1 h2 run
  show ?thesis by blast
qed

subsection \<open>The scaling driver\<close>

lemma scaling_loop_results:
  assumes "\<forall>i\<in>set ns. \<exists>qs ts.
             test_black_box_classifier (rnd i) (i + 1) number_of_tests = Inr (qs, ts, [])
             \<and> length qs = number_of_tests"
  shows "\<exists>ys. scaling_loop np_mean rnd number_of_tests ns (avgs, printed)
                 = Inr (avgs @ ys, printed)
           \<and> length ys = length ns
           \<and> (\<forall>j<length ns. \<exists>qs ts.
                 test_black_box_classifier (rnd (ns ! j)) (ns ! j + 1) number_of_tests
                   = Inr (qs, ts, [])
                 \<and> length qs = number_of_tests
                 \<and> ys ! j = np_mean qs)"
  using assms
proof (induction ns arbitrary: avgs)
  case Nil
  show ?case by simp
next
  case (Cons i rest)
  from Cons.prems obtain qs ts where
    h: "test_black_box_classifier (rnd i) (i + 1) number_of_tests = Inr (qs, ts, [])"
       "length qs = number_of_tests"
    by auto
  from Cons.prems have "\<forall>i\<in>set rest. \<exists>qs ts.
             test_black_box_classifier (rnd i) (i + 1) number_of_tests = Inr (qs, ts, [])
             \<and> length qs = number_of_tests"
    by simp
  from Cons.IH [OF this, of "avgs @ [np_mean qs]"]
  obtain ys where
    r: "scaling_loop np_mean rnd number_of_tests rest (avgs @ [np_mean qs], printed)
          = Inr ((avgs @ [np_mean qs]) @ ys, printed)"
       "length ys = length rest"
       "\<forall>j<length rest. \<exists>qs ts.
                 test_black_box_classifier (rnd (rest ! j)) (rest ! j + 1) number_of_tests
                   = Inr (qs, ts, [])
                 \<and> length qs = number_of_tests
                 \<and> ys ! j = np_mean qs"
    by blast
  have step: "scaling_loop np_mean rnd number_of_tests (i # rest) (avgs, printed)
                = Inr (avgs @ (np_mean qs # ys), printed)"
    using h(1) r(1) by simp
  have "\<forall>j<length (i # rest). \<exists>qs' ts.
                 test_black_box_classifier (rnd ((i # rest) ! j)) ((i # rest) ! j + 1) number_of_tests
                   = Inr (qs', ts, [])
                 \<and> length qs' = number_of_tests
                 \<and> (np_mean qs # ys) ! j = np_mean qs'"
  proof (intro allI impI)
    fix j assume "j < length (i # rest)"
    then show "\<exists>qs' ts.
                 test_black_box_classifier (rnd ((i # rest) ! j)) ((i # rest) ! j + 1) number_of_tests
                   = Inr (qs', ts, [])
                 \<and> length qs' = number_of_tests
                 \<and> (np_mean qs # ys) ! j = np_mean qs'"
      using h r(3) by (cases j) auto
  qed
  with step r(2) show ?case
    by (intro exI [of _ "np_mean qs # ys"]) simp
qed

text \<open>
  Claim C7 says that the driver returns the sequence of points. It does not: run on the
  sample draws with a maximum bit-string length of 3 and 2 trials, it gives the points
  \<open>(1, 2)\<close>, \<open>(2, 5/2)\<close>, \<open>(3, 9/2)\<close> to the plot and returns \<open>None\<close>.
\<close>

theorem scaling_driver_returns_nothing_counterexample:
  "average_output_number_scaling arithmetic_mean sample_draws 3 2
     = Inr \<lparr>stdout = [],
            shown = \<lparr>plot_x = [1, 2, 3], plot_y = [2, 5 / 2, 9 / 2],
                     title = ''Average number of outputs computed for classification'',
                     xlabel = ''Number of bits in bitstring''\<rparr>,
            returned = None\<rparr>"
  by code_simp

text \<open>
  Claim C7 as amended. For a maximum bit-string length and a number of trials of at least
  1, and shuffles that permute, the driver returns \<open>None\<close> and gives the plot two
  coordinate lists that pair up to exactly \<open>max_n\<close> points: the x values are
  \<open>1, \<dots>, max_n\<close> in increasing order, and the y value at \<open>n\<close> is \<^verbatim>\<open>np.mean\<close> of
  the query counts the harness recorded for \<open>n\<close>.
\<close>

theorem scaling_curve_is_plotted:
  assumes "1 \<le> maximum_bitstring_length" and "1 \<le> number_of_tests"
    and "\<forall>i<maximum_bitstring_length. shuffles_permute (rnd i)"
  shows "\<exists>run. average_output_number_scaling np_mean rnd maximum_bitstring_length number_of_tests
                  = Inr run
           \<and> returned run = None
           \<and> plot_x (shown run) = [1..<maximum_bitstring_length + 1]
           \<and> length (plot_y (shown run)) = maximum_bitstring_length
           \<and> length (zip (plot_x (shown run)) (plot_y (shown run))) = maximum_bitstring_length
           \<and> (\<forall>k<maximum_bitstring_length. \<exists>qs ts.
                 test_black_box_classifier (rnd k) (k + 1) number_of_tests = Inr (qs, ts, [])
                 \<and> length qs = number_of_tests
                 \<and> zip (plot_x (shown run)) (plot_y (shown run)) ! k = (k + 1, np_mean qs))"
proof -
  have "\<forall>i\<in>set [0..<maximum_bitstring_length]. \<exists>qs ts.
             test_black_box_classifier (rnd i) (i + 1) number_of_tests = Inr (qs, ts, [])
             \<and> length qs = number_of_tests"
  proof
    fix i assume "i \<in> set [0..<maximum_bitstring_length]"
    then have "shuffles_permute (rnd i)" using assms(3) by simp
    from harness_results [OF _ this, of "i + 1" number_of_tests]
    show "\<exists>qs ts. test_black_box_classifier (rnd i) (i + 1) number_of_tests = Inr (qs, ts, [])
             \<and> length qs = number_of_tests"
      by auto
  qed
  from scaling_loop_results [OF this, of np_mean "[]" "[]"]
  obtain ys where
    r: "scaling_loop np_mean rnd number_of_tests [0..<maximum_bitstring_length] ([], [])
          = Inr (ys, [])"
       "length ys = maximum_bitstring_length"
       "\<forall>j<maximum_bitstring_length. \<exists>qs ts.
                 test_black_box_classifier (rnd j) (j + 1) number_of_tests = Inr (qs, ts, [])
                 \<and> length qs = number_of_tests
                 \<and> ys ! j = np_mean qs"
    by auto
  define run :: "'a scaling_run" where "run =
     \<lparr>stdout = [],
      shown = \<lparr>plot_x = map (\<lambda>i. i + 1) [0..<maximum_bitstring_length],
               plot_y = ys,
               title = ''Average number of outputs computed for classification'',
               xlabel = ''Number of bits in bitstring''\<rparr>,
      returned = None\<rparr>"
  have res: "average_output_number_scaling np_mean rnd maximum_bitstring_length number_of_tests
               = Inr run"
    unfolding average_output_number_scaling_def run_def using r(1) by simp
  have xs: "plot_x (shown run) = [1..<maximum_bitstring_length + 1]"
    unfolding run_def using map_Suc_upt [of 0 maximum_bitstring_length] by simp
  have ys: "plot_y (shown run) = ys" by (simp add: run_def)
  have pts: "\<forall>k<maximum_bitstring_length. \<exists>qs ts.
                 test_black_box_classifier (rnd k) (k + 1) number_of_tests = Inr (qs, ts, [])
                 \<and> length qs = number_of_tests
                 \<and> zip (plot_x (shown run)) (plot_y (shown run)) ! k = (k + 1, np_mean qs)"
  proof (intro allI impI)
    fix k assume k: "k < maximum_bitstring_length"
    then obtain qs ts where
      "test_black_box_classifier (rnd k) (k + 1) number_of_tests = Inr (qs, ts, [])"
      "length qs = number_of_tests" "ys ! k = np_mean qs"
      using r(3) by blast
    moreover have "[1..<maximum_bitstring_length + 1] ! k = 1 + k"
      using k by (intro nth_upt) simp
    then have "zip (plot_x (shown run)) (plot_y (shown run)) ! k = (k + 1, ys ! k)"
      unfolding xs ys using k r(2) by (simp del: upt_Suc)
    ultimately show "\<exists>qs ts.
                 test_black_box_classifier (rnd k) (k + 1) number_of_tests = Inr (qs, ts, [])
                 \<and> length qs = number_of_tests
                 \<and> zip (plot_x (shown run)) (plot_y (shown run)) ! k = (k + 1, np_mean qs)"
      by auto
  qed
  have "returned run = None" by (simp add: run_def)
  moreover have "length (zip (plot_x (shown run)) (plot_y (shown run))) = maximum_bitstring_length"
    unfolding xs ys using r(2) by simp
  ultimately show ?thesis
    using res xs ys r(2) pts by (intro exI [of _ run]) simp
qed

theorem scaling_curve_is_plotted_witness:
  "(1::nat) \<le> 3 \<and> (1::nat) \<le> 2
   \<and> shuffles_permute (sample_draws 0) \<and> shuffles_permute (sample_draws 1)
   \<and> shuffles_permute (sample_draws 2)
   \<and> (\<exists>run. average_output_number_scaling arithmetic_mean sample_draws 3 2 = Inr run
          \<and> returned run = None
          \<and> plot_x (shown run) = [1..<3 + 1]
          \<and> length (plot_y (shown run)) = 3)"
proof -
  have h1: "(1::nat) \<le> 3" and h2: "(1::nat) \<le> 2" by simp_all
  have h3: "\<forall>i<3. shuffles_permute (sample_draws i)"
    by (simp add: sample_draws_def sample_shuffles_permute)
  from scaling_curve_is_plotted [OF h1 h2 h3, of arithmetic_mean] h1 h2 h3
  show ?thesis by auto
qed

end
